theory Spec2Isabelle
  imports Main "HOL-Library.Char_ord" "HOL-Library.List_Lexorder" "HOL-Library.Multiset"
begin

section \<open>Characters and strings\<close>

text \<open>
  The game works on byte strings. \<^typ>\<open>char\<close> is ordered by its code
  (\<^theory_text>\<open>HOL-Library.Char_ord\<close>) and \<^typ>\<open>string\<close> lexicographically
  (\<^theory_text>\<open>HOL-Library.List_Lexorder\<close>), which is the order of
  \<^verbatim>\<open>std::string::operator<\<close>, which compares the bytes unsigned. \<^verbatim>\<open>std::sort\<close> on the
  characters of a string compares plain \<^verbatim>\<open>char\<close>, which is signed where the program is
  built (x86-64): a byte of \<open>0x80\<close> or more sorts before the 7-bit characters.
\<close>

definition plain_char :: "char \<Rightarrow> int" where
  \<comment> \<open>the value of a byte as a plain, signed \<^verbatim>\<open>char\<close>\<close>
  "plain_char c = (if of_char c < (128::nat) then int (of_char c) else int (of_char c) - 256)"

definition std_sort :: "string \<Rightarrow> string" where
  \<comment> \<open>\<^verbatim>\<open>std::sort(s.begin(), s.end())\<close>\<close>
  "std_sort s = sort_key plain_char s"

definition c_string :: "string \<Rightarrow> string" where
  \<comment> \<open>the string a \<^verbatim>\<open>std::string\<close> takes from a pointer to bytes: up to the first zero\<close>
  "c_string s = takeWhile (\<lambda>c. c \<noteq> CHR 0x00) s"

definition to_lower :: "char \<Rightarrow> char" where
  \<comment> \<open>\<^verbatim>\<open>tolower\<close> in the C locale\<close>
  "to_lower c =
     (if CHR ''A'' \<le> c \<and> c \<le> CHR ''Z'' then char_of (of_char c + (32::nat)) else c)"

definition isalpha :: "char \<Rightarrow> bool" where
  \<comment> \<open>\<^verbatim>\<open>isalpha\<close> in the C locale\<close>
  "isalpha c =
     ((CHR ''a'' \<le> c \<and> c \<le> CHR ''z'') \<or> (CHR ''A'' \<le> c \<and> c \<le> CHR ''Z''))"

definition lowercase_and_validate :: "string \<Rightarrow> string \<times> bool" where
  \<comment> \<open>the string is lowered in place: the first component is what the caller holds afterwards\<close>
  "lowercase_and_validate str =
     (let str' = map to_lower str in (str', list_all isalpha str'))"

definition strsep :: "string \<Rightarrow> string \<times> string option" where
  \<comment> \<open>\<^verbatim>\<open>strsep(&start, " ")\<close>: the token, and the new \<^verbatim>\<open>start\<close>
      (\<open>None\<close> is \<^verbatim>\<open>nullptr\<close>: no delimiter was left)\<close>
  "strsep s =
     (takeWhile (\<lambda>c. c \<noteq> CHR '' '') s,
      case dropWhile (\<lambda>c. c \<noteq> CHR '' '') s of [] \<Rightarrow> None | _ # rest \<Rightarrow> Some rest)"

section \<open>Words and the anagram check\<close>

record word =
  literal :: string
  sorted_str :: string

definition word_ctor :: "string \<Rightarrow> word" where
  \<comment> \<open>\<^verbatim>\<open>word::word\<close>\<close>
  "word_ctor w = \<lparr>literal = w, sorted_str = std_sort w\<rparr>"

function walk :: "string \<Rightarrow> string \<Rightarrow> nat \<Rightarrow> nat \<Rightarrow> bool" where
  \<comment> \<open>the two-cursor loop of \<^verbatim>\<open>is_one_less_than\<close>, from the cursors \<open>i\<close> and \<open>j\<close> on;
      both only grow from 0, and \<^verbatim>\<open>j - i\<close> is a subtraction of ints\<close>
  "walk srt os i j =
     (if i < length srt \<and> j < length os then
        (if srt ! i = os ! j then walk srt os (Suc i) (Suc j)
         else if int j - int i > 1 then False
         else walk srt os i (Suc j))
      else True)"
  by pat_completeness auto
termination
  by (relation "measure (\<lambda>(srt, os, i, j). length os - j)") auto

declare walk.simps [simp del]

definition is_one_less_than :: "word \<Rightarrow> string list \<Rightarrow> bool" where
  \<comment> \<open>the length test subtracts two \<^verbatim>\<open>size_t\<close>, so it wraps at \<open>2 ^ 64\<close>\<close>
  "is_one_less_than w other =
     (let os = concat other in
      if (int (length os) - int (length (sorted_str w))) mod 2 ^ 64 \<noteq> 1 then False
      else walk (sorted_str w) (std_sort os) 0 0)"

section \<open>Ordered sets\<close>

text \<open>
  A \<^verbatim>\<open>std::set\<close> is kept as the list of its elements in iteration order: ascending and
  without duplicates. A set of strings is ordered by the strings, a set of words by
  \<^verbatim>\<open>word::operator<\<close>, which compares the literals only.
\<close>

definition emplace :: "string \<Rightarrow> string list \<Rightarrow> string list" where
  "emplace s xs = (if s \<in> set xs then xs else insort s xs)"

definition insert_range :: "string list \<Rightarrow> string list \<Rightarrow> string list" where
  \<comment> \<open>\<^verbatim>\<open>xs.insert(ys.begin(), ys.end())\<close>\<close>
  "insert_range ys xs = fold emplace ys xs"

definition pool_count :: "word \<Rightarrow> word list \<Rightarrow> nat" where
  "pool_count w ws = length (filter (\<lambda>v. literal v = literal w) ws)"

definition pool_insert :: "word \<Rightarrow> word list \<Rightarrow> word list" where
  "pool_insert w ws =
     (if pool_count w ws \<noteq> 0 then ws else insort_key literal w ws)"

definition pool_erase :: "word \<Rightarrow> word list \<Rightarrow> word list" where
  "pool_erase w ws = filter (\<lambda>v. literal v \<noteq> literal w) ws"

definition pool_insert_range :: "string list \<Rightarrow> word list \<Rightarrow> word list" where
  \<comment> \<open>inserting a range of strings converts each to a word\<close>
  "pool_insert_range cs ws = fold (\<lambda>c. pool_insert (word_ctor c)) cs ws"

section \<open>The lexical oracle and the stems of a word\<close>

datatype pos = NOUN | VERB | ADJ | ADV

text \<open>
  Hunspell and WordNet are libraries outside the repository. They are the parameter
  \<open>orc\<close> of the model: \<open>spell\<close> and \<open>stem\<close> are \<^verbatim>\<open>Hunspell::spell\<close> and
  \<^verbatim>\<open>Hunspell::stem\<close>, \<open>morphword\<close> and \<open>in_wn\<close> the functions of \<^verbatim>\<open>wn.h\<close>
  (\<open>None\<close> is the null pointer that \<^verbatim>\<open>morphword\<close> returns for a base form).
\<close>

record lexical_oracle =
  spell :: "string \<Rightarrow> bool"
  stem :: "string \<Rightarrow> string list"
  morphword :: "string \<Rightarrow> pos \<Rightarrow> string option"
  in_wn :: "string \<Rightarrow> pos \<Rightarrow> bool"

datatype error = InputLengthExceeded | CouldntReadValidWords | AssertionFailed

fun morph_loop ::
  "lexical_oracle \<Rightarrow> string \<Rightarrow> pos list \<Rightarrow> string list \<times> bool \<Rightarrow> string list \<times> bool" where
  \<comment> \<open>the loop over the categories; the state is \<^verbatim>\<open>stems\<close> and \<^verbatim>\<open>should_hunspell\<close>\<close>
  "morph_loop orc lit [] acc = acc"
| "morph_loop orc lit (i # is) (stems, should_hunspell) =
     (case morphword orc lit i of
        None \<Rightarrow> morph_loop orc lit is (stems, should_hunspell \<or> in_wn orc lit i)
      | Some buf \<Rightarrow> morph_loop orc lit is (emplace buf stems, should_hunspell))"

fun emplace_stems :: "string list \<Rightarrow> string list \<Rightarrow> string list" where
  \<comment> \<open>the loop over \<^verbatim>\<open>stems_arr\<close>: its body increments \<^verbatim>\<open>i\<close> and so does its header\<close>
  "emplace_stems [] stems = stems"
| "emplace_stems [a] stems = emplace a stems"
| "emplace_stems (a # b # rest) stems = emplace_stems rest (emplace a stems)"

definition stems_from_str :: "lexical_oracle \<Rightarrow> string \<Rightarrow> error + string list" where
  "stems_from_str orc str =
     (if length str \<ge> 128 then Inl InputLengthExceeded
      else
        let (lit, alpha) = lowercase_and_validate str in
        if \<not> alpha \<or> \<not> spell orc str then Inr []
        else
          let (stems, should_hunspell) = morph_loop orc lit [NOUN, VERB, ADJ, ADV] ([], False)
          in if should_hunspell then Inr (emplace_stems (stem orc lit) stems) else Inr stems)"

section \<open>The game\<close>

text \<open>
  Modelled from the spec: the header that declares the class is not among the sources,
  so the members of the state are taken from their uses and from the data model of the
  specification. \<^verbatim>\<open>current\<close> and \<^verbatim>\<open>prior\<close> are handed to \<^verbatim>\<open>paginate\<close> as sets of words,
  \<^verbatim>\<open>used_stems\<close> is used as the sets of strings beside it are, and \<^verbatim>\<open>score\<close>, printed with
  \<^verbatim>\<open>%lu\<close>, is the non-negative integer of the specification. It is an unbounded \<^typ>\<open>int\<close>
  here: it is the counter of the program as long as that stays below \<open>2 ^ 64\<close>, and a
  score that reaches \<open>2 ^ 64\<close> is outside the model. A difference that the program takes
  in \<^verbatim>\<open>size_t\<close> and that can wrap is taken modulo \<open>2 ^ 64\<close> here too. The screen, the page
  indices and the cached pages are not modelled.
\<close>

record game =
  current :: "word list"
  prior :: "word list"
  used_stems :: "string list"
  score :: int

definition init_game :: game where
  \<comment> \<open>the constructor: empty sets, \<^verbatim>\<open>score(0)\<close>\<close>
  "init_game = \<lparr>current = [], prior = [], used_stems = [], score = 0\<rparr>"

datatype message =
    NotCurrent string
  | NeedWord
  | NotAlphaTooShort string
  | NotAnagram
  | NotValidWord string
  | AlreadyUsed string

datatype outcome = Paged | Help | Quit | Rejected "message list" | Committed

subsection \<open>Setup\<close>

text \<open>
  \<^verbatim>\<open>setup\<close> first reads \<^verbatim>\<open>README.md\<close> for the help screen, which is outside the model,
  and then asks for a line until the game has its first word. The word list for a random
  start is read in items of four bytes, at most 2560 of them; the fourth byte of each is
  overwritten with a zero and the item read as a string, which ends at its first zero.
  \<open>ferror\<close> is what \<^verbatim>\<open>ferror(f) != 0\<close> answers, asked after the file is closed.
\<close>

record word_file =
  contents :: string
  ferror :: bool

fun items4 :: "string \<Rightarrow> string list" where
  \<comment> \<open>the complete items of four bytes\<close>
  "items4 (a # b # c # d # rest) = [a, b, c, d] # items4 rest"
| "items4 _ = []"

definition read_choices :: "string \<Rightarrow> string list" where
  \<comment> \<open>\<^verbatim>\<open>fread\<close> into \<^verbatim>\<open>data\<close> and the loop that fills \<^verbatim>\<open>choices\<close>\<close>
  "read_choices bytes = map (\<lambda>item. c_string (take 3 item)) (take 2560 (items4 bytes))"

definition seed :: "lexical_oracle \<Rightarrow> string \<Rightarrow> game \<Rightarrow> error + game" where
  \<comment> \<open>the three statements both branches of \<^verbatim>\<open>setup\<close> end with\<close>
  "seed orc str st =
     (case stems_from_str orc str of
        Inl e \<Rightarrow> Inl e
      | Inr stems \<Rightarrow>
          Inr (st\<lparr>current := pool_insert (word_ctor str) (current st),
                  used_stems := insert_range stems (used_stems st)\<rparr>))"

definition setup_step ::
  "lexical_oracle \<Rightarrow> word_file option \<Rightarrow> nat \<Rightarrow> string \<Rightarrow> game \<Rightarrow> error + game option" where
  \<comment> \<open>one round of the loop of \<^verbatim>\<open>setup\<close> on the line read; \<open>Some\<close> is its \<^verbatim>\<open>return\<close>.
      \<open>valid_words\<close> is the file \<^verbatim>\<open>valid_words.txt\<close> (\<open>None\<close>: it cannot be opened), \<open>rnd\<close>
      the value of \<^verbatim>\<open>std::random_device\<close>. No item read fails \<^verbatim>\<open>assert(read > 0)\<close>.\<close>
  "setup_step orc valid_words rnd line st =
     (let (str, alpha) = lowercase_and_validate line in
      if alpha then
        if length str = 3 \<and> spell orc str then map_sum id Some (seed orc str st)
        else if str = ''r'' \<or> str = ''random'' then
          (case valid_words of
             None \<Rightarrow> Inl CouldntReadValidWords
           | Some file \<Rightarrow>
               let choices = read_choices (contents file) in
               if choices = [] then Inl AssertionFailed
               else if ferror file then Inl CouldntReadValidWords
               else map_sum id Some (seed orc (choices ! (rnd mod length choices)) st))
        else Inr None
      else Inr None)"

subsection \<open>A turn\<close>

function read_candidates :: "string option \<Rightarrow> string list \<Rightarrow> string + string list" where
  \<comment> \<open>the loop that fills \<^verbatim>\<open>candidates\<close>; \<open>Inl\<close> is the token it stops at\<close>
  "read_candidates None candidates = Inr candidates"
| "read_candidates (Some s) candidates =
     (case strsep s of (token, start) \<Rightarrow>
        (case lowercase_and_validate token of (str, alpha) \<Rightarrow>
           if \<not> alpha \<or> length str < 3 then Inl str
           else read_candidates start (candidates @ [str])))"
  by pat_completeness auto
termination
proof -
  have shorter: "length rest < length s" if "(token, Some rest) = strsep s"
    for s token rest
  proof -
    have "length (dropWhile (\<lambda>c. c \<noteq> CHR '' '') s) \<le> length s"
      by (rule length_dropWhile_le)
    moreover from that obtain d where "dropWhile (\<lambda>c. c \<noteq> CHR '' '') s = d # rest"
      by (cases "dropWhile (\<lambda>c. c \<noteq> CHR '' '') s") (simp_all add: strsep_def)
    ultimately show ?thesis by simp
  qed
  show ?thesis
    by (relation "measure (\<lambda>(start, candidates). case start of None \<Rightarrow> 0 | Some s \<Rightarrow> Suc (length s))")
      (auto split: option.splits dest: shorter)
qed

declare read_candidates.simps [simp del]

text \<open>
  The variables of the loop over the candidates. \<^verbatim>\<open>score_this_round\<close> is an \<^verbatim>\<open>int\<close>
  of the program and an unbounded integer here; a candidate has passed the test for three
  letters when its \<^verbatim>\<open>size() - 3\<close> is taken, so that difference does not wrap. \<open>printed\<close> lists the messages handed to
  \<^verbatim>\<open>print_err\<close>, in their order; the loop can give more than one.
\<close>

record round =
  entry_invalid :: bool
  score_this_round :: int
  stems_this_round :: "string list"
  printed :: "message list"

fun claim_stems :: "string list \<Rightarrow> string \<Rightarrow> bool \<Rightarrow> string list \<Rightarrow> round \<Rightarrow> round" where
  \<comment> \<open>the loop over the stems of one candidate; the third argument is \<^verbatim>\<open>was_scored\<close>\<close>
  "claim_stems used candidate was_scored [] r = r"
| "claim_stems used candidate was_scored (s # rest) r =
     (if s \<notin> set used \<and> s \<notin> set (stems_this_round r) then
        claim_stems used candidate True rest
          (r\<lparr>stems_this_round := emplace s (stems_this_round r),
             score_this_round :=
               (if \<not> was_scored then score_this_round r + (int (length candidate) - 3)
                else score_this_round r)\<rparr>)
      else r\<lparr>entry_invalid := True, printed := printed r @ [AlreadyUsed candidate]\<rparr>)"

fun check_candidates :: "lexical_oracle \<Rightarrow> string list \<Rightarrow> string list \<Rightarrow> round \<Rightarrow> error + round" where
  \<comment> \<open>the loop over the candidates: an unknown word leaves it, a used stem only leaves the
      loop over the stems\<close>
  "check_candidates orc used [] r = Inr r"
| "check_candidates orc used (candidate # rest) r =
     (case stems_from_str orc candidate of
        Inl e \<Rightarrow> Inl e
      | Inr stems \<Rightarrow>
          if stems = [] then
            Inr (r\<lparr>entry_invalid := True, printed := printed r @ [NotValidWord candidate]\<rparr>)
          else check_candidates orc used rest (claim_stems used candidate False stems r))"

definition commit :: "string \<Rightarrow> string list \<Rightarrow> round \<Rightarrow> game \<Rightarrow> game" where
  \<comment> \<open>the statements after the last \<^verbatim>\<open>if (entry_invalid) continue\<close>\<close>
  "commit chosen candidates r st =
     \<lparr>current = pool_insert_range candidates (pool_erase (word_ctor chosen) (current st)),
      prior = pool_insert (word_ctor chosen) (prior st),
      used_stems = insert_range (stems_this_round r) (used_stems st),
      score = score st + score_this_round r\<rparr>"

definition turn :: "lexical_oracle \<Rightarrow> string \<Rightarrow> game \<Rightarrow> error + outcome \<times> game" where
  \<comment> \<open>a line that is no command: from the first \<^verbatim>\<open>strsep\<close> to the end of the loop body\<close>
  "turn orc line st =
     (case strsep line of (chosen, start) \<Rightarrow>
        if pool_count (word_ctor chosen) (current st) = 0 then
          Inr (Rejected [NotCurrent chosen], st)
        else if start = None then Inr (Rejected [NeedWord], st)
        else
          (case read_candidates start [] of
             Inl str \<Rightarrow> Inr (Rejected [NotAlphaTooShort str], st)
           | Inr candidates \<Rightarrow>
               if \<not> is_one_less_than (word_ctor chosen) candidates then
                 Inr (Rejected [NotAnagram], st)
               else
                 (case check_candidates orc (used_stems st) candidates
                         \<lparr>entry_invalid = False, score_this_round = 0,
                          stems_this_round = [], printed = []\<rparr> of
                    Inl e \<Rightarrow> Inl e
                  | Inr r \<Rightarrow>
                      if entry_invalid r then Inr (Rejected (printed r), st)
                      else Inr (Committed, commit chosen candidates r st))))"

definition size_minus_3 :: "string \<Rightarrow> int" where
  \<comment> \<open>\<^verbatim>\<open>size() - 3\<close>, a subtraction in \<^verbatim>\<open>size_t\<close>: below three letters it wraps\<close>
  "size_minus_3 s = (int (length s) - 3) mod 2 ^ 64"

definition quit_bonus :: "game \<Rightarrow> game" where
  \<comment> \<open>the loop of the \<^verbatim>\<open>"q"\<close> branch. As in \<open>commit\<close> the addition to the score is exact:
      the counter of the program holds this score modulo \<open>2 ^ 64\<close>, and the two are the
      same unless the counter overflows\<close>
  "quit_bonus st =
     st\<lparr>score := fold (\<lambda>c s. s + size_minus_3 (literal c)) (current st) (score st)\<rparr>"

definition play_step :: "lexical_oracle \<Rightarrow> string \<Rightarrow> game \<Rightarrow> error + outcome \<times> game" where
  \<comment> \<open>one round of the loop of \<^verbatim>\<open>play\<close> on the line read\<close>
  "play_step orc line st =
     (let input = map to_lower line in
      if input = '','' \<or> input = ''.'' \<or> input = ''<'' \<or> input = ''>'' then Inr (Paged, st)
      else if input = ''q'' then Inr (Quit, quit_bonus st)
      else if input = ''?'' \<or> input = ''h'' then Inr (Help, st)
      else turn orc line st)"

subsection \<open>Sequences of turns\<close>

fun play_lines :: "lexical_oracle \<Rightarrow> string list \<Rightarrow> game \<Rightarrow> error + game" where
  \<comment> \<open>the loop of \<^verbatim>\<open>play\<close> on the lines read one after the other; \<^verbatim>\<open>q\<close> ends it\<close>
  "play_lines orc [] st = Inr st"
| "play_lines orc (line # rest) st =
     (case play_step orc line st of
        Inl e \<Rightarrow> Inl e
      | Inr (out, st') \<Rightarrow> if out = Quit then Inr st' else play_lines orc rest st')"

inductive reachable :: "lexical_oracle \<Rightarrow> word_file option \<Rightarrow> game \<Rightarrow> bool"
  for orc :: lexical_oracle and valid_words :: "word_file option" where
  \<comment> \<open>the states in which \<^verbatim>\<open>play\<close> waits for a line: \<^verbatim>\<open>setup\<close> has returned on the
      game as constructed, and lines other than \<^verbatim>\<open>q\<close> have been played\<close>
  seeded: "setup_step orc valid_words rnd line init_game = Inr (Some st)
    \<Longrightarrow> reachable orc valid_words st"
| played: "reachable orc valid_words st \<Longrightarrow> play_step orc line st = Inr (out, st')
    \<Longrightarrow> out \<noteq> Quit \<Longrightarrow> reachable orc valid_words st'"

code_pred reachable .

section \<open>What the theorems speak of\<close>

definition literals :: "word list \<Rightarrow> string set" where
  \<comment> \<open>a pool as the set of the literals of its words\<close>
  "literals ws = literal ` set ws"

definition stems_of :: "lexical_oracle \<Rightarrow> string \<Rightarrow> string set" where
  \<comment> \<open>the stems \<open>stems_from_str\<close> returns, as a set\<close>
  "stems_of orc c = (case stems_from_str orc c of Inl e \<Rightarrow> {} | Inr stems \<Rightarrow> set stems)"

definition pool_wf :: "word list \<Rightarrow> bool" where
  \<comment> \<open>the list is the iteration of a set of words: ascending literals, each once\<close>
  "pool_wf ws = (sorted (map literal ws) \<and> distinct (map literal ws))"

definition pools_ok :: "lexical_oracle \<Rightarrow> game \<Rightarrow> bool" where
  \<comment> \<open>the stems of every word of the pools are used, and no word is in both pools\<close>
  "pools_ok orc st =
     ((\<forall>w\<in>literals (current st) \<union> literals (prior st).
         \<exists>stems. stems_from_str orc w = Inr stems \<and> set stems \<subseteq> set (used_stems st))
      \<and> literals (current st) \<inter> literals (prior st) = {})"


section \<open>A small lexicon and a game on it\<close>

text \<open>
  The examples below run the game on this lexicon. \<open>acts\<close> is an inflected form of \<open>act\<close>
  and \<open>sat\<close> of \<open>sit\<close>; \<open>cat\<close>, \<open>sit\<close>, \<open>coast\<close>, \<open>sob\<close> and \<open>left\<close> are base forms,
  and the stemmer gives two stems for \<open>left\<close>. The word list for a random start holds
  \<open>cat\<close> and \<open>sit\<close>, a line each. A second word list holds one item, in which a zero
  byte follows \<open>ab\<close>.
\<close>

definition sample_oracle :: lexical_oracle where
  "sample_oracle =
     \<lparr>spell = (\<lambda>w. w \<in> set [''cat'', ''act'', ''acts'', ''coast'', ''sob'', ''sit'', ''sat'',
                              ''stats'', ''left'']),
      stem = (\<lambda>w. if w = ''left'' then [''left'', ''leave''] else [w]),
      morphword = (\<lambda>w p.
        if w = ''acts'' \<and> (p = NOUN \<or> p = VERB) then Some ''act''
        else if w = ''sat'' \<and> p = VERB then Some ''sit''
        else None),
      in_wn = (\<lambda>w p.
        (w = ''cat'' \<and> p = NOUN) \<or> (w = ''coast'' \<and> p = NOUN) \<or> (w = ''sob'' \<and> p = VERB)
        \<or> (w = ''sit'' \<and> p = VERB) \<or> (w = ''left'' \<and> p = ADJ))\<rparr>"

definition sample_words :: "word_file option" where
  "sample_words =
     Some \<lparr>contents = ''cat'' @ [CHR 0x0A] @ ''sit'' @ [CHR 0x0A], ferror = False\<rparr>"

definition short_words :: "word_file option" where
  "short_words = Some \<lparr>contents = [CHR ''a'', CHR ''b'', CHR 0x00, CHR 0x0A], ferror = False\<rparr>"

definition ab_game :: game where
  \<comment> \<open>after a random start on the second word list\<close>
  "ab_game = \<lparr>current = [word_ctor ''ab''], prior = [], used_stems = [], score = 0\<rparr>"

definition cat_game :: game where
  \<comment> \<open>after a random start that draws \<open>cat\<close>\<close>
  "cat_game = \<lparr>current = [word_ctor ''cat''], prior = [], used_stems = [''cat''], score = 0\<rparr>"

definition acts_game :: game where
  \<comment> \<open>after the line \<open>cat acts\<close>\<close>
  "acts_game =
     \<lparr>current = [word_ctor ''acts''], prior = [word_ctor ''cat''],
      used_stems = [''act'', ''cat''], score = 1\<rparr>"

definition coast_game :: game where
  \<comment> \<open>after the line \<open>acts coast\<close>\<close>
  "coast_game =
     \<lparr>current = [word_ctor ''coast''], prior = [word_ctor ''acts'', word_ctor ''cat''],
      used_stems = [''act'', ''cat'', ''coast''], score = 3\<rparr>"

definition stats_game :: game where
  \<comment> \<open>a game in which \<open>stats\<close> is live\<close>
  "stats_game =
     \<lparr>current = [word_ctor ''stats''], prior = [], used_stems = [''stat''], score = 2\<rparr>"

lemma sample_setup:
  "setup_step sample_oracle sample_words 4 ''r'' init_game = Inr (Some cat_game)"
  by code_simp

lemma sample_cat_acts:
  "play_step sample_oracle ''cat acts'' cat_game = Inr (Committed, acts_game)"
  by code_simp

lemma sample_acts_coast:
  "play_step sample_oracle ''acts coast'' acts_game = Inr (Committed, coast_game)"
  by code_simp

lemma sample_coast_cat_sob:
  "play_step sample_oracle ''coast cat sob'' coast_game
     = Inr (Rejected [AlreadyUsed ''cat''], coast_game)"
  by code_simp

lemma sample_stats_sit_sat:
  "play_step sample_oracle ''stats sit sat'' stats_game
     = Inr (Rejected [AlreadyUsed ''sat''], stats_game)"
  by code_simp




lemma reachable_cat_game: "reachable sample_oracle sample_words cat_game"
  by (rule reachable.seeded [OF sample_setup])

lemma reachable_acts_game: "reachable sample_oracle sample_words acts_game"
  by (rule reachable.played [OF reachable_cat_game sample_cat_acts]) simp

lemma reachable_coast_game: "reachable sample_oracle sample_words coast_game"
  by (rule reachable.played [OF reachable_acts_game sample_acts_coast]) simp

section \<open>Ordered sets, rounds and turns: auxiliary facts\<close>

lemma set_emplace: "set (emplace s xs) = insert s (set xs)"
  by (auto simp: emplace_def set_insort_key)

lemma set_insert_range: "set (insert_range ys xs) = set ys \<union> set xs"
  unfolding insert_range_def
  by (induction ys arbitrary: xs) (auto simp: set_emplace)

lemma literal_word_ctor: "literal (word_ctor c) = c"
  by (simp add: word_ctor_def)

lemma pool_count_zero: "(pool_count w ws = 0) = (literal w \<notin> literals ws)"
  by (auto simp: pool_count_def literals_def filter_empty_conv image_iff)

lemma literals_pool_insert: "literals (pool_insert w ws) = insert (literal w) (literals ws)"
proof (cases "pool_count w ws = 0")
  case True
  then show ?thesis
    by (simp add: pool_insert_def literals_def set_insort_key)
next
  case False
  then have "literal w \<in> literals ws"
    by (simp add: pool_count_zero)
  with False show ?thesis
    by (auto simp: pool_insert_def)
qed

lemma literals_pool_erase: "literals (pool_erase w ws) = literals ws - {literal w}"
  by (auto simp: pool_erase_def literals_def)

lemma literals_pool_insert_range: "literals (pool_insert_range cs ws) = set cs \<union> literals ws"
  unfolding pool_insert_range_def
  by (induction cs arbitrary: ws) (auto simp: literals_pool_insert literal_word_ctor)

lemma claim_stems_invalid_stays:
  "entry_invalid r \<Longrightarrow> entry_invalid (claim_stems used c ws stems r)"
  by (induction stems arbitrary: r ws) simp_all

lemma claim_stems_valid:
  assumes "\<not> entry_invalid (claim_stems used c ws stems r)"
  shows "\<not> entry_invalid r
    \<and> set stems \<inter> set used = {}
    \<and> set (stems_this_round (claim_stems used c ws stems r)) = set (stems_this_round r) \<union> set stems
    \<and> score_this_round (claim_stems used c ws stems r)
        = score_this_round r + (if ws \<or> stems = [] then 0 else int (length c) - 3)
    \<and> printed (claim_stems used c ws stems r) = printed r"
  using assms
proof (induction stems arbitrary: r ws)
  case Nil
  then show ?case by simp
next
  case (Cons s rest)
  show ?case
  proof (cases "s \<notin> set used \<and> s \<notin> set (stems_this_round r)")
    case False
    with Cons.prems show ?thesis by auto
  next
    case True
    let ?r = "r\<lparr>stems_this_round := emplace s (stems_this_round r),
             score_this_round :=
               (if \<not> ws then score_this_round r + (int (length c) - 3)
                else score_this_round r)\<rparr>"
    from True have step: "claim_stems used c ws (s # rest) r = claim_stems used c True rest ?r"
      by simp
    with Cons.prems have "\<not> entry_invalid (claim_stems used c True rest ?r)"
      by simp
    from Cons.IH [OF this] True show ?thesis
      unfolding step by (auto simp: set_emplace)
  qed
qed

lemma check_candidates_invalid_stays:
  "entry_invalid r \<Longrightarrow> check_candidates orc used cs r = Inr r' \<Longrightarrow> entry_invalid r'"
proof (induction cs arbitrary: r)
  case Nil
  then show ?case by simp
next
  case (Cons c rest)
  from Cons.prems(2) obtain stems where st: "stems_from_str orc c = Inr stems"
    by (auto split: sum.splits)
  show ?case
  proof (cases "stems = []")
    case True
    with Cons.prems st show ?thesis by auto
  next
    case False
    with Cons.prems st
    have "check_candidates orc used rest (claim_stems used c False stems r) = Inr r'"
      by simp
    moreover from Cons.prems(1) have "entry_invalid (claim_stems used c False stems r)"
      by (rule claim_stems_invalid_stays)
    ultimately show ?thesis
      using Cons.IH by blast
  qed
qed

lemma check_candidates_valid:
  assumes "check_candidates orc used cs r = Inr r'" and "\<not> entry_invalid r'"
  shows "\<not> entry_invalid r
    \<and> (\<forall>c\<in>set cs. \<exists>stems. stems_from_str orc c = Inr stems \<and> stems \<noteq> []
          \<and> set stems \<inter> set used = {})
    \<and> set (stems_this_round r') = set (stems_this_round r) \<union> (\<Union>c\<in>set cs. stems_of orc c)
    \<and> score_this_round r' = score_this_round r + (\<Sum>c\<leftarrow>cs. int (length c) - 3)
    \<and> printed r' = printed r"
  using assms
proof (induction cs arbitrary: r)
  case Nil
  then show ?case by simp
next
  case (Cons c rest)
  from Cons.prems obtain stems where st: "stems_from_str orc c = Inr stems"
    by (auto split: sum.splits)
  with Cons.prems have ne: "stems \<noteq> []"
    by (auto split: if_splits)
  let ?r = "claim_stems used c False stems r"
  from Cons.prems st ne have rec: "check_candidates orc used rest ?r = Inr r'"
    by simp
  note ih = Cons.IH [OF rec Cons.prems(2)]
  then have "\<not> entry_invalid ?r" by simp
  note cl = claim_stems_valid [OF this]
  from ih cl st ne show ?case
    by (auto simp: stems_of_def)
qed


lemma play_step_cases:
  "play_step orc line st = Inr (Paged, st) \<or> play_step orc line st = Inr (Help, st)
   \<or> play_step orc line st = Inr (Quit, quit_bonus st)
   \<or> play_step orc line st = turn orc line st"
  by (simp add: play_step_def Let_def)

lemma turn_result:
  assumes "turn orc line st = Inr (out, st')"
  shows "(\<exists>msgs. out = Rejected msgs \<and> st' = st)
    \<or> (out = Committed
        \<and> fst (strsep line) \<in> literals (current st)
        \<and> (\<exists>cands r. read_candidates (snd (strsep line)) [] = Inr cands
              \<and> check_candidates orc (used_stems st) cands
                   \<lparr>entry_invalid = False, score_this_round = 0,
                    stems_this_round = [], printed = []\<rparr> = Inr r
              \<and> \<not> entry_invalid r
              \<and> st' = commit (fst (strsep line)) cands r st))"
  using assms
  by (auto simp: turn_def pool_count_zero literal_word_ctor
      split: prod.splits sum.splits if_splits)

lemma play_step_rejected:
  assumes "play_step orc line st = Inr (Rejected msgs, st')"
  shows "st' = st"
  using assms play_step_cases [of orc line st] turn_result [of orc line st "Rejected msgs" st']
  by auto

lemma play_step_committed:
  assumes "play_step orc line st = Inr (Committed, st')"
  shows "fst (strsep line) \<in> literals (current st)
    \<and> (\<exists>cands r. read_candidates (snd (strsep line)) [] = Inr cands
          \<and> check_candidates orc (used_stems st) cands
               \<lparr>entry_invalid = False, score_this_round = 0,
                stems_this_round = [], printed = []\<rparr> = Inr r
          \<and> \<not> entry_invalid r
          \<and> st' = commit (fst (strsep line)) cands r st)"
  using assms play_step_cases [of orc line st] turn_result [of orc line st Committed st']
  by auto

lemma play_step_other:
  assumes "play_step orc line st = Inr (out, st')" and "out \<noteq> Committed" and "out \<noteq> Quit"
  shows "st' = st"
  using assms play_step_cases [of orc line st] turn_result [of orc line st out st']
  by auto

lemma play_step_quit:
  assumes "play_step orc line st = Inr (Quit, st')"
  shows "st' = quit_bonus st"
  using assms play_step_cases [of orc line st] turn_result [of orc line st Quit st']
  by auto

lemma committed_change:
  assumes "play_step orc line st = Inr (Committed, st')"
  shows "\<exists>candidates. read_candidates (snd (strsep line)) [] = Inr candidates
     \<and> (\<forall>c\<in>set candidates. \<exists>stems. stems_from_str orc c = Inr stems \<and> stems \<noteq> []
           \<and> set stems \<inter> set (used_stems st) = {})
     \<and> score st' = score st + (\<Sum>c\<leftarrow>candidates. int (length c) - 3)
     \<and> set (used_stems st') = set (used_stems st) \<union> (\<Union>c\<in>set candidates. stems_of orc c)
     \<and> literals (current st')
         = (literals (current st) - {fst (strsep line)}) \<union> set candidates
     \<and> literals (prior st') = insert (fst (strsep line)) (literals (prior st))"
proof -
  from play_step_committed [OF assms] obtain cands r where
    rd: "read_candidates (snd (strsep line)) [] = Inr cands" and
    ck: "check_candidates orc (used_stems st) cands
               \<lparr>entry_invalid = False, score_this_round = 0,
                stems_this_round = [], printed = []\<rparr> = Inr r" and
    ok: "\<not> entry_invalid r" and
    st': "st' = commit (fst (strsep line)) cands r st"
    by blast
  note v = check_candidates_valid [OF ck ok]
  from v have sc: "score_this_round r = (\<Sum>c\<leftarrow>cands. int (length c) - 3)"
    by simp
  from v have stems: "set (stems_this_round r) = (\<Union>c\<in>set cands. stems_of orc c)"
    by simp
  from v have each: "\<forall>c\<in>set cands. \<exists>stems. stems_from_str orc c = Inr stems \<and> stems \<noteq> []
           \<and> set stems \<inter> set (used_stems st) = {}"
    by simp
  have "score st' = score st + (\<Sum>c\<leftarrow>cands. int (length c) - 3)"
    by (simp add: st' commit_def sc)
  moreover have "set (used_stems st') = set (used_stems st) \<union> (\<Union>c\<in>set cands. stems_of orc c)"
    by (auto simp: st' commit_def set_insert_range stems)
  moreover have "literals (current st')
         = (literals (current st) - {fst (strsep line)}) \<union> set cands"
    by (auto simp: st' commit_def literals_pool_insert_range literals_pool_erase literal_word_ctor)
  moreover have "literals (prior st') = insert (fst (strsep line)) (literals (prior st))"
    by (simp add: st' commit_def literals_pool_insert literal_word_ctor)
  ultimately show ?thesis
    using rd each by blast
qed

lemma seed_result:
  assumes "seed orc str init_game = Inr st"
  shows "literals (current st) = {str} \<and> literals (prior st) = {} \<and> score st = 0
    \<and> (\<exists>stems. stems_from_str orc str = Inr stems \<and> set (used_stems st) = set stems)"
  using assms
  by (auto simp: seed_def init_game_def literals_def pool_insert_def pool_count_def
      literal_word_ctor set_insert_range split: sum.splits)

lemma setup_step_seeded:
  assumes "setup_step orc valid_words rnd line init_game = Inr (Some st)"
  shows "\<exists>str. seed orc str init_game = Inr st"
proof -
  have seeded: "\<exists>str. seed orc str init_game = Inr st"
    if "map_sum id Some (seed orc w init_game) = Inr (Some st)" for w
    using that by (cases "seed orc w init_game") auto
  from assms show ?thesis
    by (auto simp: setup_step_def Let_def split: prod.splits if_splits option.splits
        intro: seeded)
qed

lemma pools_ok_seeded:
  assumes "setup_step orc valid_words rnd line init_game = Inr (Some st)"
  shows "pools_ok orc st"
proof -
  from setup_step_seeded [OF assms] obtain str where "seed orc str init_game = Inr st"
    by blast
  from seed_result [OF this] show ?thesis
    by (auto simp: pools_ok_def)
qed


lemma pool_candidate_not_committed:
  assumes inv: "pools_ok orc st"
    and run: "play_step orc line st = Inr (Committed, st')"
    and rd: "read_candidates (snd (strsep line)) [] = Inr cands"
    and c: "c \<in> set cands"
  shows "c \<notin> literals (current st) \<union> literals (prior st)"
proof
  assume "c \<in> literals (current st) \<union> literals (prior st)"
  with inv have "\<exists>stems. stems_from_str orc c = Inr stems
      \<and> set stems \<subseteq> set (used_stems st)"
    unfolding pools_ok_def by blast
  then obtain stems where
    old: "stems_from_str orc c = Inr stems" "set stems \<subseteq> set (used_stems st)"
    by blast
  from committed_change [OF run] rd c obtain stems' where
    "stems_from_str orc c = Inr stems'" "stems' \<noteq> []" "set stems' \<inter> set (used_stems st) = {}"
    by auto
  with old show False
    by (cases stems') auto
qed

lemma pools_ok_step:
  assumes inv: "pools_ok orc st" and run: "play_step orc line st = Inr (out, st')"
  shows "pools_ok orc st'"
proof (cases "out = Committed")
  case False
  show ?thesis
  proof (cases "out = Quit")
    case True
    with run have "st' = quit_bonus st"
      by (simp add: play_step_quit)
    with inv show ?thesis
      by (simp add: pools_ok_def quit_bonus_def)
  next
    case False
    with \<open>out \<noteq> Committed\<close> run have "st' = st"
      by (rule_tac play_step_other)
    with inv show ?thesis by simp
  qed
next
  case True
  with run have run': "play_step orc line st = Inr (Committed, st')"
    by simp
  from committed_change [OF run'] obtain cands where
    rd: "read_candidates (snd (strsep line)) [] = Inr cands" and
    each: "\<forall>c\<in>set cands. \<exists>stems. stems_from_str orc c = Inr stems \<and> stems \<noteq> []
           \<and> set stems \<inter> set (used_stems st) = {}" and
    used: "set (used_stems st') = set (used_stems st) \<union> (\<Union>c\<in>set cands. stems_of orc c)" and
    cur: "literals (current st')
         = (literals (current st) - {fst (strsep line)}) \<union> set cands" and
    pri: "literals (prior st') = insert (fst (strsep line)) (literals (prior st))"
    by blast
  from play_step_committed [OF run'] have chosen: "fst (strsep line) \<in> literals (current st)"
    by simp
  have fresh: "\<forall>c\<in>set cands. c \<notin> literals (current st) \<union> literals (prior st)"
    using pool_candidate_not_committed [OF inv run' rd] by blast
  have stems_ok: "\<exists>stems. stems_from_str orc w = Inr stems \<and> set stems \<subseteq> set (used_stems st')"
    if "w \<in> literals (current st') \<union> literals (prior st')" for w
  proof (cases "w \<in> set cands")
    case True
    with each obtain stems where "stems_from_str orc w = Inr stems"
      by blast
    moreover from this True have "set stems \<subseteq> (\<Union>c\<in>set cands. stems_of orc c)"
      by (auto simp: stems_of_def)
    ultimately show ?thesis
      using used by blast
  next
    case False
    with that cur pri chosen have "w \<in> literals (current st) \<union> literals (prior st)"
      by auto
    with inv have "\<exists>stems. stems_from_str orc w = Inr stems
        \<and> set stems \<subseteq> set (used_stems st)"
      unfolding pools_ok_def by blast
    with used show ?thesis by blast
  qed
  have "literals (current st') \<inter> literals (prior st') = {}"
    using inv fresh chosen cur pri by (auto simp: pools_ok_def)
  with stems_ok show ?thesis
    by (simp add: pools_ok_def)
qed

lemma reachable_pools_ok: "reachable orc valid_words st \<Longrightarrow> pools_ok orc st"
  by (induction rule: reachable.induct) (auto intro: pools_ok_seeded pools_ok_step)





lemma quit_bonus_fold:
  "fold (\<lambda>c s. s + size_minus_3 (literal c)) ws s0 = s0 + (\<Sum>w\<leftarrow>ws. size_minus_3 (literal w))"
  by (induction ws arbitrary: s0) simp_all

lemma size_minus_3_sum_mod:
  "(s0 + (\<Sum>w\<leftarrow>ws. size_minus_3 (literal w))) mod 2 ^ 64
     = (s0 + (\<Sum>w\<leftarrow>ws. int (length (literal w)) - 3)) mod 2 ^ 64"
proof (induction ws arbitrary: s0)
  case Nil
  show ?case by simp
next
  case (Cons w ws)
  let ?a = "\<Sum>w\<leftarrow>ws. size_minus_3 (literal w)"
  let ?b = "\<Sum>w\<leftarrow>ws. int (length (literal w)) - 3"
  let ?d = "int (length (literal w)) - 3"
  have "(s0 + (\<Sum>w\<leftarrow>w # ws. size_minus_3 (literal w))) mod 2 ^ 64
      = ((s0 + size_minus_3 (literal w)) + ?a) mod 2 ^ 64"
    by (simp add: add.assoc)
  also have "\<dots> = ((s0 + size_minus_3 (literal w)) + ?b) mod 2 ^ 64"
    by (rule Cons.IH)
  also have "\<dots> = ((s0 + ?b) + ?d mod 2 ^ 64) mod 2 ^ 64"
    by (simp add: size_minus_3_def ac_simps)
  also have "\<dots> = ((s0 + ?b) + ?d) mod 2 ^ 64"
    by (rule mod_add_right_eq)
  also have "\<dots> = (s0 + (\<Sum>w\<leftarrow>w # ws. int (length (literal w)) - 3)) mod 2 ^ 64"
    by (simp add: ac_simps)
  finally show ?case .
qed

lemma strsep_space: "snd (strsep line) \<noteq> None \<Longrightarrow> CHR '' '' \<in> set line"
proof -
  assume a: "snd (strsep line) \<noteq> None"
  have "dropWhile (\<lambda>c. c \<noteq> CHR '' '') line \<noteq> []"
    using a by (cases "dropWhile (\<lambda>c. c \<noteq> CHR '' '') line") (simp_all add: strsep_def)
  then show ?thesis
    by (simp add: dropWhile_eq_Nil_conv)
qed

lemma spaced_line_is_turn:
  assumes "CHR '' '' \<in> set line"
  shows "play_step orc line st = turn orc line st"
proof -
  have "to_lower (CHR '' '') = CHR '' ''"
    by (simp add: to_lower_def)
  with assms have "CHR '' '' \<in> set (map to_lower line)"
    by force
  then have "map to_lower line \<notin> set ['','', ''.'', ''<'', ''>'', ''q'', ''?'', ''h'']"
    by auto
  then show ?thesis
    by (simp add: play_step_def Let_def)
qed

lemma candidates_line_is_turn:
  assumes "read_candidates (snd (strsep line)) [] = Inr cands" and "c \<in> set cands"
  shows "play_step orc line st = turn orc line st"
proof -
  have "snd (strsep line) \<noteq> None"
  proof
    assume "snd (strsep line) = None"
    with assms show False
      by (simp add: read_candidates.simps)
  qed
  then show ?thesis
    by (intro spaced_line_is_turn strsep_space)
qed

lemma prior_step:
  assumes "play_step orc line st = Inr (out, st')"
  shows "literals (prior st) \<subseteq> literals (prior st')
    \<and> (\<forall>w\<in>literals (prior st') - literals (prior st).
          out = Committed \<and> w = fst (strsep line) \<and> w \<in> literals (current st))
    \<and> (out = Committed \<longrightarrow> fst (strsep line) \<in> literals (current st)
          \<and> fst (strsep line) \<in> literals (prior st'))"
proof (cases "out = Committed")
  case True
  with assms have run: "play_step orc line st = Inr (Committed, st')"
    by simp
  from committed_change [OF run] play_step_committed [OF run] True show ?thesis
    by auto
next
  case False
  have "prior st' = prior st"
  proof (cases "out = Quit")
    case True
    with assms have "st' = quit_bonus st"
      by (simp add: play_step_quit)
    then show ?thesis
      by (simp add: quit_bonus_def)
  next
    case False
    with \<open>out \<noteq> Committed\<close> assms have "st' = st"
      by (rule_tac play_step_other)
    then show ?thesis by simp
  qed
  with False show ?thesis by simp
qed

lemma play_lines_pools:
  "pools_ok orc st \<Longrightarrow> play_lines orc lines st = Inr st''
    \<Longrightarrow> pools_ok orc st'' \<and> literals (prior st) \<subseteq> literals (prior st'')"
proof (induction lines arbitrary: st)
  case Nil
  then show ?case by simp
next
  case (Cons line rest)
  from Cons.prems(2) obtain out st' where run: "play_step orc line st = Inr (out, st')"
    by (auto split: sum.splits)
  from pools_ok_step [OF Cons.prems(1) run] have inv': "pools_ok orc st'" .
  from prior_step [OF run] have mono: "literals (prior st) \<subseteq> literals (prior st')"
    by simp
  show ?case
  proof (cases "out = Quit")
    case True
    with Cons.prems(2) run have "st'' = st'" by simp
    with inv' mono show ?thesis by simp
  next
    case False
    with Cons.prems(2) run have "play_lines orc rest st' = Inr st''" by simp
    from Cons.IH [OF inv' this] mono show ?thesis by auto
  qed
qed

lemma pool_insert_wf: "pool_wf ws \<Longrightarrow> pool_wf (pool_insert w ws)"
proof (cases "pool_count w ws = 0")
  case False
  assume "pool_wf ws"
  with False show ?thesis by (simp add: pool_insert_def)
next
  case True
  assume wf: "pool_wf ws"
  from True have new: "literal w \<notin> literal ` set ws"
    by (simp add: pool_count_zero literals_def)
  have "sorted (map literal (insort_key literal w ws))"
    using wf by (simp add: pool_wf_def sorted_insort_key)
  moreover have "distinct (map literal (insort_key literal w ws))"
    using wf new
    by (auto simp: pool_wf_def distinct_map distinct_insort set_insort_key)
  ultimately show ?thesis
    using True by (simp add: pool_insert_def pool_wf_def)
qed

lemma pool_erase_wf: "pool_wf ws \<Longrightarrow> pool_wf (pool_erase w ws)"
  by (auto simp: pool_wf_def pool_erase_def sorted_map distinct_map_filter intro: sorted_wrt_filter)

lemma pool_insert_range_wf: "pool_wf ws \<Longrightarrow> pool_wf (pool_insert_range cs ws)"
  unfolding pool_insert_range_def
  by (induction cs arbitrary: ws) (simp_all add: pool_insert_wf)

lemma reachable_pool_wf:
  "reachable orc valid_words st \<Longrightarrow> pool_wf (current st) \<and> pool_wf (prior st)"
proof (induction rule: reachable.induct)
  case (seeded rnd line st)
  from setup_step_seeded [OF seeded] obtain str where "seed orc str init_game = Inr st"
    by blast
  then show ?case
    by (auto simp: seed_def init_game_def pool_wf_def pool_insert_def pool_count_def
        split: sum.splits)
next
  case (played st line out st')
  show ?case
  proof (cases "out = Committed")
    case True
    with played.hyps(2) have "play_step orc line st = Inr (Committed, st')"
      by simp
    from play_step_committed [OF this] obtain cands r where
      "st' = commit (fst (strsep line)) cands r st"
      by blast
    with played.IH show ?thesis
      by (simp add: commit_def pool_insert_range_wf pool_erase_wf pool_insert_wf)
  next
    case False
    with played.hyps have "st' = st"
      by (rule_tac play_step_other)
    with played.IH show ?thesis by simp
  qed
qed

section \<open>The anagram check accepts the letters of the source and one more\<close>

text \<open>
  When the letters of the candidates are those of the source and one more, the sorted
  candidates are the sorted source with that letter inserted, and the loop meets at most
  one letter that does not match.
\<close>

lemma walk_same_suffix: "drop i srt = drop j os \<Longrightarrow> walk srt os i j"
proof (induction srt os i j rule: walk.induct)
  case (1 srt os i j)
  show ?case
  proof (cases "i < length srt \<and> j < length os")
    case False
    then show ?thesis by (subst walk.simps) auto
  next
    case True
    with "1.prems" have same: "srt ! i = os ! j"
      by (metis hd_drop_conv_nth)
    from "1.prems" have "drop (Suc i) srt = drop (Suc j) os"
      by (metis drop_Suc tl_drop)
    with True same "1.IH"(1) have "walk srt os (Suc i) (Suc j)"
      by simp
    with True same show ?thesis
      by (subst walk.simps) simp
  qed
qed

lemma walk_insort:
  "sorted (map f (drop i srt)) \<Longrightarrow> drop i os = insort_key f x (drop i srt) \<Longrightarrow> walk srt os i i"
proof (induction "length srt - i" arbitrary: i)
  case 0
  then show ?case by (subst walk.simps) simp
next
  case (Suc n)
  then have i: "i < length srt" by simp
  let ?y = "srt ! i" and ?u = "drop (Suc i) srt"
  from i have split: "drop i srt = ?y # ?u"
    by (simp add: Cons_nth_drop_Suc)
  with Suc.prems(1) have su: "sorted (map f ?u)" and le: "\<forall>z\<in>set ?u. f ?y \<le> f z"
    by simp_all
  from Suc.prems(2) split have ne: "drop i os \<noteq> []"
    by auto
  then have j: "i < length os" by simp
  then have os_split: "drop i os = os ! i # drop (Suc i) os"
    by (simp add: Cons_nth_drop_Suc)
  from Suc.hyps(2) have n: "n = length srt - Suc i" by simp
  show ?case
  proof (cases "f x \<le> f ?y")
    case False
    with Suc.prems(2) split os_split
    have "os ! i = ?y" "drop (Suc i) os = insort_key f x ?u"
      by simp_all
    with Suc.hyps(1) [OF n su] i j show ?thesis
      by (subst walk.simps) simp
  next
    case True
    with Suc.prems(2) split os_split have hd: "os ! i = x" and tl: "drop (Suc i) os = ?y # ?u"
      by simp_all
    show ?thesis
    proof (cases "x = ?y")
      case True
      with le have "insort_key f x ?u = x # ?u"
        by (simp add: insort_is_Cons)
      with tl True have "drop (Suc i) os = insort_key f x ?u"
        by simp
      with Suc.hyps(1) [OF n su] i j hd True show ?thesis
        by (subst walk.simps) simp
    next
      case False
      from tl split have "drop i srt = drop (Suc i) os"
        by simp
      then have "walk srt os i (Suc i)"
        by (rule walk_same_suffix)
      with i j hd False show ?thesis
        by (subst walk.simps) simp
    qed
  qed
qed

lemma plain_char_inj: "plain_char a = plain_char b \<Longrightarrow> a = b"
proof -
  assume eq: "plain_char a = plain_char b"
  have arith: "m = n"
    if "m < 256" "n < 256"
      "(if m < 128 then int m else int m - 256) = (if n < 128 then int n else int n - 256)"
    for m n :: nat
    using that by (auto split: if_splits)
  have "(of_char a :: nat) = of_char b"
    using eq by (intro arith) (simp_all add: plain_char_def)
  then show ?thesis by simp
qed

lemma std_sort_plus_one:
  assumes "mset os = mset src + {#x#}"
  shows "std_sort os = insort_key plain_char x (std_sort src)"
  unfolding std_sort_def
proof (rule properties_for_sort_key)
  show "mset (insort_key plain_char x (sort_key plain_char src)) = mset os"
    by (simp add: assms)
  show "sorted (map plain_char (insort_key plain_char x (sort_key plain_char src)))"
    by (simp add: sorted_insort_key)
  fix k
  have same: "filter (\<lambda>z. plain_char k = plain_char z) ys = filter ((=) k) ys" for ys
    by (rule filter_cong) (auto dest: plain_char_inj)
  have "mset (insort_key plain_char x (sort_key plain_char src)) = mset os"
    by (simp add: assms)
  then have "filter ((=) k) (insort_key plain_char x (sort_key plain_char src)) = filter ((=) k) os"
    by (metis replicate_count_mset_eq_filter_eq)
  then show "filter (\<lambda>z. plain_char k = plain_char z) (insort_key plain_char x (sort_key plain_char src))
      = filter (\<lambda>z. plain_char k = plain_char z) os"
    by (simp add: same)
qed

lemma anagram_plus_one_accepted:
  assumes "mset (concat other) = mset src + {#x#}"
  shows "is_one_less_than (word_ctor src) other"
proof -
  from assms have srt: "std_sort (concat other) = insort_key plain_char x (std_sort src)"
    by (rule std_sort_plus_one)
  from assms have "size (mset (concat other)) = size (mset src + {#x#})"
    by simp
  then have len: "length (concat other) = Suc (length src)"
    by simp
  have "walk (std_sort src) (insort_key plain_char x (std_sort src)) 0 0"
    by (rule walk_insort [where f = plain_char]) (simp_all add: std_sort_def)
  with srt len show ?thesis
    by (simp add: is_one_less_than_def word_ctor_def std_sort_def)
qed

section \<open>The anagram check on concrete words\<close>

text \<open>
  C3, as the code has it. On the source \<open>cat\<close> the check rejects \<open>act\<close> (no extra
  letter) and \<open>tabs\<close>, and accepts \<open>cats\<close>. It also accepts the two candidates \<open>ct\<close>
  and \<open>as\<close>: the candidates are joined before anything is measured, and the four letters
  joined are those of \<open>cat\<close> and an \<open>s\<close>.
\<close>

theorem anagram_test_vectors:
  "is_one_less_than (word_ctor ''cat'') [''act''] = False
   \<and> is_one_less_than (word_ctor ''cat'') [''cats''] = True
   \<and> is_one_less_than (word_ctor ''cat'') [''tabs''] = False
   \<and> is_one_less_than (word_ctor ''cat'') [''ct'', ''as''] = True"
  by (simp add: is_one_less_than_def word_ctor_def walk.simps std_sort_def plain_char_def)

text \<open>
  C3 as the specification words it says that the check is false on \<open>ct\<close>, \<open>as\<close>. It is
  true there.
\<close>

theorem anagram_split_candidates_counterexample:
  "is_one_less_than (word_ctor ''cat'') [''ct'', ''as'']"
  by (simp add: is_one_less_than_def word_ctor_def walk.simps std_sort_def plain_char_def)

text \<open>
  C1: the check should hold exactly when the letters of the candidates are the letters of
  the source and one more. It does hold then (\<open>anagram_plus_one_accepted\<close>), but not
  only then. The loop only counts how far the cursor of the candidates has run ahead, and
  it stops as soon as either cursor reaches its end: on the source \<open>cat\<close> and the
  candidate \<open>aces\<close> it answers true, although \<open>aces\<close> has no \<open>t\<close>.
\<close>

theorem anagram_check_accepts_aces:
  "is_one_less_than (word_ctor ''cat'') [''aces'']
   \<and> CHR ''t'' \<notin> set (concat [''aces''])
   \<and> (\<nexists>x. mset (concat [''aces'']) = mset ''cat'' + {#x#})"
proof -
  have accepted: "is_one_less_than (word_ctor ''cat'') [''aces'']"
    by (simp add: is_one_less_than_def word_ctor_def walk.simps std_sort_def plain_char_def)
  have no_t: "CHR ''t'' \<notin> set (concat [''aces''])"
    by simp
  have "\<nexists>x. mset (concat [''aces'']) = mset ''cat'' + {#x#}"
  proof
    assume "\<exists>x. mset (concat [''aces'']) = mset ''cat'' + {#x#}"
    then obtain x where eq: "mset (concat [''aces'']) = mset ''cat'' + {#x#}" ..
    have "CHR ''t'' \<in># mset ''cat'' + {#x#}"
      by simp
    with eq have "CHR ''t'' \<in># mset (concat [''aces''])"
      by simp
    with no_t show False
      by simp
  qed
  with accepted no_t show ?thesis
    by blast
qed

section \<open>The stems of a word\<close>

text \<open>
  C6, as the code has it: \<open>stems_from_str\<close> throws exactly on the strings of 128
  characters or more, since the buffer of 128 bytes also holds the terminating zero. It
  throws nothing else, and whether it throws does not depend on the dictionary.
\<close>

theorem length_exceeded_iff:
  "(stems_from_str orc str = Inl InputLengthExceeded) = (128 \<le> length str)
   \<and> (\<exists>e. stems_from_str orc str = Inl e) = (128 \<le> length str)"
  by (auto simp: stems_from_str_def Let_def split: prod.splits)

theorem length_exceeded_iff_witness:
  "stems_from_str sample_oracle (replicate 200 (CHR ''a'')) = Inl InputLengthExceeded
   \<and> stems_from_str sample_oracle ''cat'' \<noteq> Inl InputLengthExceeded"
  using length_exceeded_iff [of sample_oracle "replicate 200 (CHR ''a'')"]
    length_exceeded_iff [of sample_oracle "''cat''"]
  by simp

text \<open>
  C6 as the specification words it lets every string of at most 128 characters pass.
  A string of exactly 128 characters is refused.
\<close>

theorem length_128_counterexample:
  "length (replicate 128 (CHR ''a'')) \<le> 128
   \<and> stems_from_str sample_oracle (replicate 128 (CHR ''a'')) = Inl InputLengthExceeded"
  by (simp add: stems_from_str_def)

text \<open>
  C5: every stem that the stemmer returns should be added. The loop over the array of
  stems advances its index twice a round, so it adds the stems at the even places only:
  \<open>left\<close> is a base form of the lexicon, the stemmer is consulted and returns \<open>left\<close> and
  \<open>leave\<close>, and \<open>leave\<close> is not among the stems of \<open>left\<close>.
\<close>

theorem second_stem_is_skipped:
  "in_wn sample_oracle ''left'' ADJ
   \<and> stem sample_oracle ''left'' = [''left'', ''leave'']
   \<and> stems_from_str sample_oracle ''left'' = Inr [''left'']
   \<and> emplace_stems [a, b] [] = [a]"
  by (simp add: stems_from_str_def sample_oracle_def lowercase_and_validate_def to_lower_def
      isalpha_def emplace_def)

theorem second_stem_is_skipped_witness:
  "''leave'' \<in> set (stem sample_oracle ''left'')
   \<and> stems_from_str sample_oracle ''left'' \<noteq> Inr [''leave'', ''left'']"
  using second_stem_is_skipped [of "''x''" "''y''"]
  by simp

section \<open>Turns\<close>

text \<open>
  C2: a turn that is rejected, whatever the message, leaves the game as it was: the score,
  the used stems, \<open>current\<close> and \<open>prior\<close> are those of before. The checks of a turn write
  to the variables of the round only.
\<close>

theorem rejected_turn_changes_nothing:
  assumes "play_step orc line st = Inr (Rejected msgs, st')"
  shows "st' = st \<and> score st' = score st \<and> used_stems st' = used_stems st
    \<and> current st' = current st \<and> prior st' = prior st"
  using play_step_rejected [OF assms] by simp

theorem rejected_turn_changes_nothing_witness:
  "\<exists>msgs st'. play_step sample_oracle ''stats sit sat'' stats_game = Inr (Rejected msgs, st')
     \<and> st' = stats_game \<and> score st' = 2"
proof -
  from rejected_turn_changes_nothing [OF sample_stats_sit_sat]
  have "score stats_game = 2"
    by (simp add: stats_game_def)
  with sample_stats_sit_sat show ?thesis
    by blast
qed

text \<open>
  C4: a turn that is committed adds to the score the sum, over the candidates, of the
  length less three, once for each candidate however many stems it has; it adds the
  stems of all the candidates to the used stems; it takes the chosen word out of
  \<open>current\<close> and puts it into \<open>prior\<close>; and it puts every candidate into \<open>current\<close>.
\<close>

theorem committed_turn_state_change:
  assumes "play_step orc line st = Inr (Committed, st')"
  shows "\<exists>candidates. read_candidates (snd (strsep line)) [] = Inr candidates
     \<and> score st' = score st + (\<Sum>c\<leftarrow>candidates. int (length c) - 3)
     \<and> set (used_stems st') = set (used_stems st) \<union> (\<Union>c\<in>set candidates. stems_of orc c)
     \<and> literals (current st')
         = (literals (current st) - {fst (strsep line)}) \<union> set candidates
     \<and> literals (prior st') = insert (fst (strsep line)) (literals (prior st))"
  using committed_change [OF assms] by blast

theorem committed_turn_state_change_witness:
  "play_step sample_oracle ''cat acts'' cat_game = Inr (Committed, acts_game)
   \<and> (\<exists>candidates. read_candidates (snd (strsep ''cat acts'')) [] = Inr candidates
        \<and> score acts_game = score cat_game + (\<Sum>c\<leftarrow>candidates. int (length c) - 3)
        \<and> set (used_stems acts_game)
            = set (used_stems cat_game) \<union> (\<Union>c\<in>set candidates. stems_of sample_oracle c)
        \<and> literals (current acts_game)
            = (literals (current cat_game) - {fst (strsep ''cat acts'')}) \<union> set candidates
        \<and> literals (prior acts_game)
            = insert (fst (strsep ''cat acts'')) (literals (prior cat_game)))"
  using sample_cat_acts committed_turn_state_change [OF sample_cat_acts]
  by blast

section \<open>The pools along a game\<close>

text \<open>
  C10: in every state the game reaches, each word of \<open>current\<close> and of \<open>prior\<close> has its
  stems computed without error and all of them among the used stems. Hence a turn that
  names a word of the pools among its candidates is rejected, and changes nothing.
\<close>

theorem pool_stems_are_used:
  assumes "reachable orc valid_words st"
  shows "(\<forall>w\<in>literals (current st) \<union> literals (prior st).
            \<exists>stems. stems_from_str orc w = Inr stems \<and> set stems \<subseteq> set (used_stems st))
    \<and> (play_step orc line st = Inr (out, st')
          \<and> read_candidates (snd (strsep line)) [] = Inr candidates
          \<and> c \<in> set candidates \<and> c \<in> literals (current st) \<union> literals (prior st)
        \<longrightarrow> (\<exists>msgs. out = Rejected msgs) \<and> st' = st)"
proof -
  from assms have inv: "pools_ok orc st"
    by (rule reachable_pools_ok)
  have "(\<exists>msgs. out = Rejected msgs) \<and> st' = st"
    if run: "play_step orc line st = Inr (out, st')"
      and rd: "read_candidates (snd (strsep line)) [] = Inr candidates"
      and c: "c \<in> set candidates" "c \<in> literals (current st) \<union> literals (prior st)"
  proof -
    from rd c(1) run have t: "turn orc line st = Inr (out, st')"
      by (simp add: candidates_line_is_turn)
    have "out \<noteq> Committed"
      using pool_candidate_not_committed [OF inv _ rd c(1)] run c(2) by blast
    with turn_result [OF t] show ?thesis by blast
  qed
  with inv show ?thesis
    unfolding pools_ok_def by blast
qed

theorem pool_stems_are_used_witness:
  "reachable sample_oracle sample_words coast_game
   \<and> ''cat'' \<in> literals (current coast_game) \<union> literals (prior coast_game)
   \<and> (\<exists>stems. stems_from_str sample_oracle ''cat'' = Inr stems
         \<and> set stems \<subseteq> set (used_stems coast_game))
   \<and> read_candidates (snd (strsep ''coast cat sob'')) [] = Inr [''cat'', ''sob'']
   \<and> play_step sample_oracle ''coast cat sob'' coast_game
       = Inr (Rejected [AlreadyUsed ''cat''], coast_game)"
proof -
  have mem: "''cat'' \<in> literals (current coast_game) \<union> literals (prior coast_game)"
    by (simp add: literals_def coast_game_def word_ctor_def)
  have rd: "read_candidates (snd (strsep ''coast cat sob'')) [] = Inr [''cat'', ''sob'']"
    by code_simp
  from pool_stems_are_used [OF reachable_coast_game] mem
  have "\<exists>stems. stems_from_str sample_oracle ''cat'' = Inr stems
         \<and> set stems \<subseteq> set (used_stems coast_game)"
    by blast
  with reachable_coast_game mem rd sample_coast_cat_sob show ?thesis
    by blast
qed

text \<open>
  C8: from a state the game reaches, a line never takes a word out of \<open>prior\<close>; a word
  enters \<open>prior\<close> only as the chosen word of a committed turn, coming from \<open>current\<close>;
  and no word is in both pools afterwards. So, whatever lines follow, a word of \<open>prior\<close>
  stays in \<open>prior\<close> and is not in \<open>current\<close> again, also when a line names it as a
  candidate.
\<close>

theorem retired_words_stay_retired:
  assumes "reachable orc valid_words st"
  shows "(play_step orc line st = Inr (out, st') \<longrightarrow>
            literals (prior st) \<subseteq> literals (prior st')
          \<and> literals (current st') \<inter> literals (prior st') = {}
          \<and> (\<forall>w\<in>literals (prior st') - literals (prior st).
                out = Committed \<and> w = fst (strsep line) \<and> w \<in> literals (current st))
          \<and> (out = Committed \<longrightarrow> fst (strsep line) \<in> literals (current st)
                \<and> fst (strsep line) \<in> literals (prior st')))
       \<and> (play_lines orc lines st = Inr st'' \<longrightarrow>
            (\<forall>w\<in>literals (prior st). w \<in> literals (prior st'') \<and> w \<notin> literals (current st'')))"
proof -
  from assms have inv: "pools_ok orc st"
    by (rule reachable_pools_ok)
  have one: "literals (prior st) \<subseteq> literals (prior st')
          \<and> literals (current st') \<inter> literals (prior st') = {}
          \<and> (\<forall>w\<in>literals (prior st') - literals (prior st).
                out = Committed \<and> w = fst (strsep line) \<and> w \<in> literals (current st))
          \<and> (out = Committed \<longrightarrow> fst (strsep line) \<in> literals (current st)
                \<and> fst (strsep line) \<in> literals (prior st'))"
    if run: "play_step orc line st = Inr (out, st')"
  proof -
    from pools_ok_step [OF inv run] have "literals (current st') \<inter> literals (prior st') = {}"
      by (simp add: pools_ok_def)
    with prior_step [OF run] show ?thesis by blast
  qed
  have many: "\<forall>w\<in>literals (prior st). w \<in> literals (prior st'') \<and> w \<notin> literals (current st'')"
    if run: "play_lines orc lines st = Inr st''"
  proof -
    from play_lines_pools [OF inv run]
    have "literals (current st'') \<inter> literals (prior st'') = {}"
      and "literals (prior st) \<subseteq> literals (prior st'')"
      by (simp_all add: pools_ok_def)
    then show ?thesis by blast
  qed
  from one many show ?thesis by blast
qed

theorem retired_words_stay_retired_witness:
  "reachable sample_oracle sample_words acts_game
   \<and> play_step sample_oracle ''acts coast'' acts_game = Inr (Committed, coast_game)
   \<and> fst (strsep ''acts coast'') \<in> literals (prior coast_game)
   \<and> play_lines sample_oracle [''acts coast'', ''coast cat sob''] acts_game = Inr coast_game
   \<and> ''cat'' \<in> literals (prior acts_game)
   \<and> ''cat'' \<in> literals (prior coast_game)
   \<and> ''cat'' \<notin> literals (current coast_game)"
proof -
  have lines: "play_lines sample_oracle [''acts coast'', ''coast cat sob''] acts_game
      = Inr coast_game"
    by (simp add: sample_acts_coast sample_coast_cat_sob)
  have mem: "''cat'' \<in> literals (prior acts_game)"
    by (simp add: literals_def acts_game_def word_ctor_def)
  note inst = retired_words_stay_retired [OF reachable_acts_game,
      where line = "''acts coast''" and out = Committed and st' = coast_game
        and lines = "[''acts coast'', ''coast cat sob'']" and st'' = coast_game]
  from inst sample_acts_coast
  have "fst (strsep ''acts coast'') \<in> literals (prior coast_game)"
    by blast
  moreover from inst lines mem
  have "''cat'' \<in> literals (prior coast_game) \<and> ''cat'' \<notin> literals (current coast_game)"
    by blast
  ultimately show ?thesis
    using reachable_acts_game sample_acts_coast lines mem by blast
qed

section \<open>The score\<close>



text \<open>
  C7: on the line \<open>q\<close> every word of \<open>current\<close> adds \<^verbatim>\<open>size() - 3\<close> to the score, once:
  the new score is the old one plus the sum of \<^verbatim>\<open>size() - 3\<close> over the list of the live
  words, and in a state the game reaches no literal stands twice in that list. The
  subtraction is one of \<^verbatim>\<open>size_t\<close>, so modulo \<open>2 ^ 64\<close> the new score is the old one plus
  the sum of the lengths less three, and it is exactly that when every live word has
  three letters or more. Neither the lexicon nor the used stems take part, and nothing
  else changes. With \<open>acts\<close> the only live word the bonus is 1.
\<close>

theorem quit_bonus_sum:
  "play_step orc ''q'' st = Inr (Quit, quit_bonus st)
   \<and> score (quit_bonus st) = score st + (\<Sum>w\<leftarrow>current st. size_minus_3 (literal w))
   \<and> score (quit_bonus st) mod 2 ^ 64
       = (score st + (\<Sum>w\<leftarrow>current st. int (length (literal w)) - 3)) mod 2 ^ 64
   \<and> ((\<forall>w\<in>set (current st). 3 \<le> length (literal w) \<and> length (literal w) < 2 ^ 64)
        \<longrightarrow> score (quit_bonus st)
              = score st + (\<Sum>w\<leftarrow>current st. int (length (literal w)) - 3))
   \<and> current (quit_bonus st) = current st
   \<and> prior (quit_bonus st) = prior st
   \<and> used_stems (quit_bonus st) = used_stems st
   \<and> (reachable orc valid_words st \<longrightarrow> distinct (map literal (current st)))
   \<and> score (quit_bonus (st\<lparr>current := [word_ctor ''acts'']\<rparr>)) = score st + 1"
proof -
  have run: "play_step orc ''q'' st = Inr (Quit, quit_bonus st)"
    by (simp add: play_step_def to_lower_def)
  have total: "score (quit_bonus st) = score st + (\<Sum>w\<leftarrow>current st. size_minus_3 (literal w))"
    by (simp add: quit_bonus_def quit_bonus_fold)
  have modulo: "score (quit_bonus st) mod 2 ^ 64
       = (score st + (\<Sum>w\<leftarrow>current st. int (length (literal w)) - 3)) mod 2 ^ 64"
    unfolding total by (rule size_minus_3_sum_mod)
  have exact: "score (quit_bonus st)
              = score st + (\<Sum>w\<leftarrow>current st. int (length (literal w)) - 3)"
    if long: "\<forall>w\<in>set (current st). 3 \<le> length (literal w) \<and> length (literal w) < 2 ^ 64"
  proof -
    have "size_minus_3 (literal w) = int (length (literal w)) - 3" if "w \<in> set (current st)" for w
    proof -
      from long that have "3 \<le> length (literal w)" and "length (literal w) < 2 ^ 64"
        by simp_all
      then have "0 \<le> int (length (literal w)) - 3" and "int (length (literal w)) - 3 < 2 ^ 64"
        by (simp_all add: less_imp_of_nat_less [where 'a = int, of _ "2 ^ 64", simplified])
      then show ?thesis
        by (simp add: size_minus_3_def)
    qed
    then have "(\<Sum>w\<leftarrow>current st. size_minus_3 (literal w))
        = (\<Sum>w\<leftarrow>current st. int (length (literal w)) - 3)"
      by (intro arg_cong [where f = sum_list] map_cong) simp_all
    with total show ?thesis by simp
  qed
  have acts: "score (quit_bonus (st\<lparr>current := [word_ctor ''acts'']\<rparr>)) = score st + 1"
    by (simp add: quit_bonus_def word_ctor_def size_minus_3_def)
  have once: "reachable orc valid_words st \<longrightarrow> distinct (map literal (current st))"
    using reachable_pool_wf [of orc valid_words st] by (simp add: pool_wf_def)
  from run total modulo exact acts once show ?thesis
    by (simp add: quit_bonus_def)
qed

theorem quit_bonus_sum_witness:
  "reachable sample_oracle sample_words acts_game
   \<and> distinct (map literal (current acts_game))
   \<and> play_step sample_oracle ''q'' acts_game = Inr (Quit, quit_bonus acts_game)
   \<and> score (quit_bonus acts_game) = 2
   \<and> score (quit_bonus ab_game) = 18446744073709551615
   \<and> score (quit_bonus ab_game) mod 2 ^ 64 = (score ab_game + (int (length ''ab'') - 3)) mod 2 ^ 64"
proof -
  note inst = quit_bonus_sum [of sample_oracle acts_game sample_words]
  from inst reachable_acts_game have "distinct (map literal (current acts_game))"
    by blast
  moreover have long: "\<forall>w\<in>set (current acts_game).
      3 \<le> length (literal w) \<and> length (literal w) < 2 ^ 64"
    by (simp add: acts_game_def word_ctor_def)
  with inst have "score (quit_bonus acts_game)
      = score acts_game + (\<Sum>w\<leftarrow>current acts_game. int (length (literal w)) - 3)"
    by blast
  then have "score (quit_bonus acts_game) = 2"
    by (simp add: acts_game_def word_ctor_def)
  moreover from quit_bonus_sum [of sample_oracle ab_game short_words]
  have "score (quit_bonus ab_game) = 18446744073709551615"
    and "score (quit_bonus ab_game) mod 2 ^ 64
      = (score ab_game + (int (length ''ab'') - 3)) mod 2 ^ 64"
    by (simp_all add: ab_game_def word_ctor_def size_minus_3_def)
  ultimately show ?thesis
    using inst reachable_acts_game by blast
qed

end
